theory Spec2Isabelle
  imports Main
begin

section \<open>Data model\<close>

text \<open>
  The module \<^verbatim>\<open>src/index.js\<close> exports one function,
  \<^verbatim>\<open>execWhenSourceBufferReady(sourceBuffer, callback, onWarning = console.warn)\<close>, and keeps one
  module-level \<^verbatim>\<open>WeakMap\<close>, \<^verbatim>\<open>queueMap\<close>, from source buffers to arrays of callbacks.

  A source buffer is identified by a number (the identity of the JavaScript object).
\<close>

type_synonym sb = nat

text \<open>
  A warning sink is a JavaScript function of the message. Its effect is modelled on the
  diagnostic stream, a list of lines: \<^verbatim>\<open>console.warn\<close> appends the message.
\<close>

type_synonym sink = "string \<Rightarrow> string list \<Rightarrow> string list"

definition console_warn :: sink where
  "console_warn msg out = out @ [msg]"

text \<open>The third argument as the caller passes it: omitted or \<^verbatim>\<open>undefined\<close>, \<^verbatim>\<open>null\<close>, or a function.\<close>

datatype sink_arg = Undefined | Null | Fn sink

text \<open>
  A callback is JavaScript code of the caller. What it can do to the controller is change the
  \<^verbatim>\<open>updating\<close> flag of a source buffer (\<^verbatim>\<open>appendBuffer\<close>, \<^verbatim>\<open>remove\<close> set it, \<^verbatim>\<open>abort\<close> clears it)
  and call \<^verbatim>\<open>execWhenSourceBufferReady\<close> again; a callback is a name and a sequence of such
  statements. Every callback of the model returns: what happens when a callback throws is left
  open by the design and is not modelled.
\<close>

datatype callback = Callback nat "stmt list"
  and stmt = SetUpdating sb bool | ExecWhenReady sb callback sink_arg

text \<open>
  The closure \<^verbatim>\<open>onSourceBufferReadyAndQueueNotEmpty\<close> (lines 68-114) captures \<^verbatim>\<open>sourceBuffer\<close>,
  \<^verbatim>\<open>queue\<close> and \<^verbatim>\<open>onWarning\<close>. Every call that reaches line 68 makes a new closure, a new
  object for \<^verbatim>\<open>addEventListener\<close> and \<^verbatim>\<open>removeEventListener\<close>: \<open>hid\<close> is its identity.
  \<^verbatim>\<open>queueMap.set\<close> runs only when the key is absent (line 55), so the array of a source buffer
  is never replaced, and the captured \<^verbatim>\<open>queue\<close> is the array \<^verbatim>\<open>queueMap\<close> holds for the
  source buffer the listener is registered on.
\<close>

record handler =
  hid :: nat
  onWarning :: "sink option"

datatype error = TypeError

text \<open>
  The state: \<^verbatim>\<open>queueMap\<close>, and for each source buffer its \<^verbatim>\<open>updating\<close> flag and its
  \<^verbatim>\<open>updateend\<close> listeners in registration order; the next closure identity; the diagnostic
  stream; the exceptions that left a listener uncaught. \<open>executed\<close> and \<open>submitted\<close> are
  history variables, read by no branch. \<open>executed\<close> is written by the invocation of a callback
  and by nothing else: the callbacks invoked so far, in order, each with the source buffer on
  whose behalf it was invoked. \<open>submitted\<close> is written on entry to
  \<^verbatim>\<open>execWhenSourceBufferReady\<close>: the calls so far, in order.
\<close>

record state =
  queueMap :: "sb \<rightharpoonup> callback list"
  updating :: "sb \<Rightarrow> bool"
  listeners :: "sb \<Rightarrow> handler list"
  fresh :: nat
  diagnostics :: "string list"
  uncaught :: "error list"
  executed :: "(sb \<times> callback) list"
  submitted :: "(sb \<times> callback) list"

definition init :: state where
  "init = \<lparr>queueMap = Map.empty, updating = (\<lambda>_. False), listeners = (\<lambda>_. []), fresh = 0,
           diagnostics = [], uncaught = [], executed = [], submitted = []\<rparr>"

section \<open>The operations\<close>

text \<open>The default parameter \<^verbatim>\<open>onWarning = console.warn\<close> (line 35) replaces \<^verbatim>\<open>undefined\<close> only.\<close>

fun default_param :: "sink_arg \<Rightarrow> sink option" where
  "default_param Undefined = Some console_warn"
| "default_param Null = None"
| "default_param (Fn f) = Some f"

text \<open>The optional call \<^verbatim>\<open>onWarning?.(msg)\<close> (lines 70 and 90).\<close>

fun warn :: "sink option \<Rightarrow> string \<Rightarrow> state \<Rightarrow> state" where
  "warn None msg s = s"
| "warn (Some f) msg s = s\<lparr>diagnostics := f msg (diagnostics s)\<rparr>"

definition busy_warning :: string where
  "busy_warning =
     ''sourceBuffer.updating === true, but we're supposed to be the only '' @
     ''party that can operate on the sourceBuffer. '' @
     ''Something else made it busy. '' @
     ''We'll graciously wait for the next 'updateend' event''"

definition idle_warning :: string where
  "idle_warning =
     ''Executed `callback()`, but it didn't make '' @
     ''`sourceBuffer.updating === true`'' @ [CHR 0x0A] @
     ''We'll handle it graciously, but usually '' @
     ''operations on `sourceBuffer` cause it to become busy.''"

text \<open>\<^verbatim>\<open>queue.length\<close> and the contents of the array, for a queue that may be absent.\<close>

definition queue_of :: "state \<Rightarrow> sb \<Rightarrow> callback list" where
  "queue_of s b = (case queueMap s b of None \<Rightarrow> [] | Some q \<Rightarrow> q)"

text \<open>\<^verbatim>\<open>sourceBuffer.addEventListener("updateend", h)\<close> with a new closure (lines 68 and 116).\<close>

definition addEventListener :: "sb \<Rightarrow> sink option \<Rightarrow> state \<Rightarrow> state" where
  "addEventListener b w s =
     s\<lparr>listeners := (listeners s)(b := listeners s b @ [\<lparr>hid = fresh s, onWarning = w\<rparr>]),
       fresh := Suc (fresh s)\<rparr>"

text \<open>\<^verbatim>\<open>sourceBuffer.removeEventListener("updateend", h)\<close> (line 102).\<close>

definition removeEventListener :: "sb \<Rightarrow> handler \<Rightarrow> state \<Rightarrow> state" where
  "removeEventListener b h s =
     s\<lparr>listeners := (listeners s)(b := filter (\<lambda>h'. hid h' \<noteq> hid h) (listeners s b))\<rparr>"

text \<open>
  \<^verbatim>\<open>execWhenSourceBufferReady\<close> (lines 32-133), together with the invocation \<^verbatim>\<open>callback()\<close> and the
  execution of the callback's statements, which may call \<^verbatim>\<open>execWhenSourceBufferReady\<close> again.
  \<open>call b cb\<close> is the invocation of \<open>cb\<close> at line 51 or line 87 of a call or listener for the source
  buffer \<open>b\<close>: it enters the callback in the log and runs its body.
\<close>

fun execWhenSourceBufferReady :: "sb \<Rightarrow> callback \<Rightarrow> sink_arg \<Rightarrow> state \<Rightarrow> state"
  and call :: "sb \<Rightarrow> callback \<Rightarrow> state \<Rightarrow> state"
  and exec_stmts :: "stmt list \<Rightarrow> state \<Rightarrow> state"
where
  "execWhenSourceBufferReady b cb w s0 =
     (let s = s0\<lparr>submitted := submitted s0 @ [(b, cb)]\<rparr>;
          queue = queueMap s b
      in if queue \<noteq> None \<and> length (queue_of s b) > 0
         then s\<lparr>queueMap := (queueMap s)(b \<mapsto> queue_of s b @ [cb])\<rparr>
         else if \<not> updating s b
         then call b cb s
         else addEventListener b (default_param w)
                (if queue = None
                 then s\<lparr>queueMap := (queueMap s)(b \<mapsto> [cb])\<rparr>
                 else s\<lparr>queueMap := (queueMap s)(b \<mapsto> queue_of s b @ [cb])\<rparr>))"
| "call b (Callback n body) s =
     exec_stmts body (s\<lparr>executed := executed s @ [(b, Callback n body)]\<rparr>)"
| "exec_stmts [] s = s"
| "exec_stmts (SetUpdating b v # rest) s = exec_stmts rest (s\<lparr>updating := (updating s)(b := v)\<rparr>)"
| "exec_stmts (ExecWhenReady b cb w # rest) s = exec_stmts rest (execWhenSourceBufferReady b cb w s)"

text \<open>
  One pass of the body of the \<^verbatim>\<open>do ... while\<close> loop up to the length check (lines 84-96), for
  the callback \<open>cb\<close> that \<^verbatim>\<open>queue.shift()\<close> took from the front, leaving \<open>rest\<close>.
\<close>

definition iteration :: "sb \<Rightarrow> handler \<Rightarrow> callback \<Rightarrow> callback list \<Rightarrow> state \<Rightarrow> state" where
  "iteration b h cb rest s =
     (let s1 = call b cb (s\<lparr>queueMap := (queueMap s)(b \<mapsto> rest)\<rparr>)
      in if \<not> updating s1 b then warn (onWarning h) idle_warning s1 else s1)"

text \<open>
  The \<^verbatim>\<open>do ... while (!sourceBuffer.updating)\<close> loop (lines 83-109). On an empty array
  \<^verbatim>\<open>queue.shift()\<close> is \<^verbatim>\<open>undefined\<close> and the array stays as it is; calling \<^verbatim>\<open>undefined\<close> throws a
  \<^verbatim>\<open>TypeError\<close>, which leaves the listener with the state reached so far. The loop ends: a
  callback that is invoked can only add callbacks smaller than itself to the queue.
\<close>

function do_while :: "sb \<Rightarrow> handler \<Rightarrow> state \<Rightarrow> error \<times> state + state" where
  "do_while b h s =
     (case queue_of s b of
        [] \<Rightarrow> Inl (TypeError, s)
      | cb # rest \<Rightarrow>
          (let s' = iteration b h cb rest s
           in if length (queue_of s' b) = 0 then Inr (removeEventListener b h s')
              else if \<not> updating s' b then do_while b h s'
              else Inr s'))"
  by pat_completeness auto
termination
proof (relation "measure (\<lambda>(b, h, s). size_list size (queue_of s b))")
  show "wf (measure (\<lambda>(b, h, s). size_list size (queue_of s b)))" by simp
next
  fix b h s cb rest s'
  assume q: "queue_of s b = cb # rest" and s': "s' = iteration b h cb rest s"
  have grow:
    "size_list size (queue_of (execWhenSourceBufferReady b1 cb1 w1 t1) c)
       \<le> size_list size (queue_of t1 c) + Suc (size cb1)"
    "size_list size (queue_of (call b2 cb2 t2) c) < size_list size (queue_of t2 c) + size cb2"
    "size_list size (queue_of (exec_stmts body t3) c)
       \<le> size_list size (queue_of t3 c) + size_list size body"
    for b1 cb1 w1 t1 b2 cb2 t2 body t3 c
  proof (induction b1 cb1 w1 t1 and b2 cb2 t2 and body t3
         rule: execWhenSourceBufferReady_call_exec_stmts.induct)
    case (1 b cb w s0)
    note IH = "1"[OF refl refl]
    show ?case
    proof (cases "queueMap s0 b \<noteq> None \<and> 0 < length (queue_of s0 b)")
      case True
      then show ?thesis by (auto simp: Let_def queue_of_def)
    next
      case False
      note nq = this
      show ?thesis
      proof (cases "updating s0 b")
        case True
        with nq show ?thesis
          by (auto simp: Let_def queue_of_def addEventListener_def split: option.splits)
      next
        case False
        have "size_list size (queue_of (call b cb (s0\<lparr>submitted := submitted s0 @ [(b, cb)]\<rparr>)) c)
              < size_list size (queue_of (s0\<lparr>submitted := submitted s0 @ [(b, cb)]\<rparr>) c) + size cb"
          using IH nq False by (simp add: queue_of_def)
        with nq False show ?thesis by (simp add: Let_def queue_of_def)
      qed
    qed
  next
    case (2 b n body s)
    then show ?case by (simp add: queue_of_def)
  next
    case (3 s)
    then show ?case by simp
  next
    case (4 b v rest s)
    then show ?case by (simp add: queue_of_def)
  next
    case (5 b cb w rest s)
    then show ?case by simp
  qed
  have w: "queue_of (warn x m t) c = queue_of t c" for x m t c
    by (cases x) (simp_all add: queue_of_def)
  have "size_list size (queue_of s' b) < size_list size (queue_of s b)"
    using grow(2)[of b cb "s\<lparr>queueMap := (queueMap s)(b \<mapsto> rest)\<rparr>" b] q
    by (simp add: s' iteration_def Let_def w) (simp add: queue_of_def)
  then show "((b, h, s'), (b, h, s)) \<in> measure (\<lambda>(b, h, s). size_list size (queue_of s b))"
    by simp
qed

text \<open>The listener \<^verbatim>\<open>onSourceBufferReadyAndQueueNotEmpty\<close> (lines 68-114): the guard, then the loop.\<close>

definition onSourceBufferReadyAndQueueNotEmpty :: "sb \<Rightarrow> handler \<Rightarrow> state \<Rightarrow> error \<times> state + state" where
  "onSourceBufferReadyAndQueueNotEmpty b h s =
     (if updating s b then Inr (warn (onWarning h) busy_warning s) else do_while b h s)"

section \<open>The environment\<close>

text \<open>
  The browser dispatches \<^verbatim>\<open>updateend\<close> at a source buffer by calling, in registration order, the
  listeners that were registered when the dispatch began and have not been removed since. An
  exception that leaves a listener is reported and the dispatch goes on.
\<close>

fun invoke_listeners :: "sb \<Rightarrow> handler list \<Rightarrow> state \<Rightarrow> state" where
  "invoke_listeners b [] s = s"
| "invoke_listeners b (h # hs) s =
     invoke_listeners b hs
       (if hid h \<in> hid ` set (listeners s b)
        then (case onSourceBufferReadyAndQueueNotEmpty b h s of
                Inr s' \<Rightarrow> s'
              | Inl (e, s') \<Rightarrow> s'\<lparr>uncaught := uncaught s' @ [e]\<rparr>)
        else s)"

definition dispatch_updateend :: "sb \<Rightarrow> state \<Rightarrow> state" where
  "dispatch_updateend b s = invoke_listeners b (listeners s b) s"

text \<open>
  What can happen to the controller from outside: a call of \<^verbatim>\<open>execWhenSourceBufferReady\<close>, an
  \<^verbatim>\<open>updateend\<close> event at a source buffer, and a change of a source buffer's \<^verbatim>\<open>updating\<close> flag
  (the end of an append, or code that uses the source buffer directly).
\<close>

datatype event = Submit sb callback sink_arg | UpdateEnd sb | Flag sb bool

fun step :: "event \<Rightarrow> state \<Rightarrow> state" where
  "step (Submit b cb w) s = execWhenSourceBufferReady b cb w s"
| "step (UpdateEnd b) s = dispatch_updateend b s"
| "step (Flag b v) s = s\<lparr>updating := (updating s)(b := v)\<rparr>"

definition run_events :: "event list \<Rightarrow> state \<Rightarrow> state" where
  "run_events evs s = fold step evs s"

section \<open>Classes of callbacks and sample inputs\<close>

text \<open>
  A plain callback only changes \<^verbatim>\<open>updating\<close> flags: it does not call
  \<^verbatim>\<open>execWhenSourceBufferReady\<close> itself. \<open>flag_after b body v\<close> is the flag of \<open>b\<close> after the
  assignments of \<open>body\<close>, from the value \<open>v\<close>; a callback leaves \<open>b\<close> free when it is plain and a
  free \<open>b\<close> is free again once it has run.
\<close>

fun plain_stmt :: "stmt \<Rightarrow> bool" where
  "plain_stmt (SetUpdating b v) = True"
| "plain_stmt (ExecWhenReady b cb w) = False"

fun plain :: "callback \<Rightarrow> bool" where
  "plain (Callback n body) = list_all plain_stmt body"

fun flag_after :: "sb \<Rightarrow> stmt list \<Rightarrow> bool \<Rightarrow> bool" where
  "flag_after b [] v = v"
| "flag_after b (SetUpdating b' v' # rest) v = flag_after b rest (if b' = b then v' else v)"
| "flag_after b (ExecWhenReady b' cb w # rest) v = flag_after b rest v"

fun leaves_free :: "sb \<Rightarrow> callback \<Rightarrow> bool" where
  "leaves_free b (Callback n body) = (list_all plain_stmt body \<and> \<not> flag_after b body False)"

fun stmts_of :: "callback \<Rightarrow> stmt list" where
  "stmts_of (Callback n body) = body"

text \<open>
  Sample callbacks: one that appends to \<open>b\<close> (the source buffer becomes busy), one that does
  nothing to any source buffer, and one that appends and then queues the next callback itself.
\<close>

definition appending :: "sb \<Rightarrow> nat \<Rightarrow> callback" where
  "appending b n = Callback n [SetUpdating b True]"

definition idle :: "nat \<Rightarrow> callback" where
  "idle n = Callback n []"

definition chained :: "sb \<Rightarrow> nat \<Rightarrow> callback \<Rightarrow> callback" where
  "chained b n cb = Callback n [SetUpdating b True, ExecWhenReady b cb Undefined]"

definition console_listener :: "nat \<Rightarrow> handler" where
  "console_listener i = \<lparr>hid = i, onWarning = Some console_warn\<rparr>"

text \<open>
  The state of the example in the documentation comment (lines 15-30): the first callback ran at
  once and made source buffer 0 busy, the second one waits in the queue.
\<close>

definition waiting :: state where
  "waiting = run_events [Submit 0 (appending 0 1) Undefined, Submit 0 (appending 0 2) Undefined] init"

text \<open>
  Further states of the example: after the first callback alone; with two callbacks queued
  that do not touch the source buffer, once the append has ended; and the example after the
  append has ended and \<^verbatim>\<open>updateend\<close> has been delivered.
\<close>

definition appended :: state where
  "appended = run_events [Submit 0 (appending 0 1) Undefined] init"

definition idle_pair :: state where
  "idle_pair = run_events [Submit 0 (appending 0 1) Undefined, Submit 0 (idle 2) Undefined,
                           Submit 0 (idle 3) Undefined, Flag 0 False] init"

definition drained :: state where
  "drained = run_events [Flag 0 False, UpdateEnd 0] waiting"

text \<open>
  Two callbacks queued for source buffer 0 that leave it free and append to the source buffers 1
  and 2, once the append to source buffer 0 has ended.
\<close>

definition marking_pair :: state where
  "marking_pair = run_events [Submit 0 (appending 0 1) Undefined, Submit 0 (appending 1 2) Undefined,
                              Submit 0 (appending 2 3) Undefined, Flag 0 False] init"

text \<open>
  Two runs in which the call that registers the listener and a later call that only appends
  pass different sinks: \<^verbatim>\<open>null\<close> first and \<^verbatim>\<open>undefined\<close> later, and the other way round. In both,
  one \<^verbatim>\<open>updateend\<close> arrives while the source buffer is busy.
\<close>

definition silenced_run :: "event list" where
  "silenced_run = [Submit 0 (appending 0 1) Null, Submit 0 (idle 2) Null,
                   Submit 0 (idle 3) Undefined, UpdateEnd 0, Flag 0 False, UpdateEnd 0]"

definition warned_run :: "event list" where
  "warned_run = [Submit 0 (appending 0 1) Undefined, Submit 0 (idle 2) Undefined,
                 Submit 0 (idle 3) Null, UpdateEnd 0, Flag 0 False, UpdateEnd 0]"

text \<open>
  A longer run of the example: three callbacks are queued behind the first, the second of them
  appends to source buffer 3 and leaves source buffer 0 free, and one \<^verbatim>\<open>updateend\<close> arrives
  while source buffer 0 is busy.
\<close>

definition in_order :: "event list" where
  "in_order = [Submit 0 (appending 0 1) Undefined, Submit 0 (appending 0 2) Undefined,
               Submit 0 (appending 3 3) Undefined, Submit 0 (appending 0 4) Undefined,
               Flag 0 False, UpdateEnd 0, UpdateEnd 0, Flag 0 False, UpdateEnd 0]"

text \<open>
  A run in which the queued callback appends and then submits the next callback itself, up to the
  return of the listener that invoked it.
\<close>

definition resubmitting :: "event list" where
  "resubmitting = [Submit 0 (appending 0 1) Undefined,
                   Submit 0 (chained 0 2 (appending 0 3)) Undefined, Flag 0 False, UpdateEnd 0]"

section \<open>The properties\<close>

text \<open>
  The callbacks invoked, or submitted, on behalf of one source buffer, in order; and the
  statement that the callbacks invoked so far, followed by those that wait, are the callbacks
  submitted so far.
\<close>

definition on_behalf :: "sb \<Rightarrow> (sb \<times> callback) list \<Rightarrow> callback list" where
  "on_behalf b xs = map snd (filter (\<lambda>e. fst e = b) xs)"

definition fifo :: "state \<Rightarrow> bool" where
  "fifo s = (\<forall>b. on_behalf b (executed s) @ queue_of s b = on_behalf b (submitted s))"

text \<open>
  An event of the environment is plain when the callback it submits is; and the relation between
  listeners and queues that lines 64-66 and 98-100 speak of: a source buffer has a listener
  exactly when its queue is not empty, and never two.
\<close>

fun plain_event :: "event \<Rightarrow> bool" where
  "plain_event (Submit b cb w) = plain cb"
| "plain_event (UpdateEnd b) = True"
| "plain_event (Flag b v) = True"

definition subscribed_iff_queued :: "state \<Rightarrow> bool" where
  "subscribed_iff_queued s =
     (\<forall>b. length (listeners s b) \<le> 1 \<and> (listeners s b = []) = (queue_of s b = [])
          \<and> list_all plain (queue_of s b))"

declare execWhenSourceBufferReady.simps [simp del]
declare do_while.simps [simp del]

section \<open>Basic facts\<close>

lemmas eval_defs =
  run_events_def init_def execWhenSourceBufferReady.simps do_while.simps Let_def queue_of_def
  addEventListener_def removeEventListener_def iteration_def
  onSourceBufferReadyAndQueueNotEmpty_def dispatch_updateend_def console_warn_def
  appending_def idle_def chained_def console_listener_def

lemma warn_frame [simp]:
  "queueMap (warn w m s) = queueMap s"
  "updating (warn w m s) = updating s"
  "listeners (warn w m s) = listeners s"
  "fresh (warn w m s) = fresh s"
  "uncaught (warn w m s) = uncaught s"
  "executed (warn w m s) = executed s"
  "submitted (warn w m s) = submitted s"
  by (cases w; simp)+

lemma queue_of_warn [simp]: "queue_of (warn w m s) b = queue_of s b"
  by (simp add: queue_of_def)

text \<open>A plain callback changes the flags and nothing else.\<close>

lemma exec_plain:
  "list_all plain_stmt body \<Longrightarrow>
   exec_stmts body s = s\<lparr>updating := (\<lambda>b. flag_after b body (updating s b))\<rparr>"
proof (induction body arbitrary: s)
  case Nil
  then show ?case by simp
next
  case (Cons st body)
  then show ?case
    by (cases st) (auto simp: fun_eq_iff intro!: arg_cong2[where f="\<lambda>u s. s\<lparr>updating := u\<rparr>"])
qed

lemma call_plain:
  "plain cb \<Longrightarrow>
   call b cb s =
     s\<lparr>executed := executed s @ [(b, cb)],
       updating := (\<lambda>c. case cb of Callback n body \<Rightarrow> flag_after c body (updating s c))\<rparr>"
  by (cases cb) (simp add: exec_plain)

lemma leaves_free_plain: "leaves_free b cb \<Longrightarrow> plain cb"
  by (cases cb) simp

lemma call_leaves_free: "leaves_free b cb \<Longrightarrow> \<not> updating s b \<Longrightarrow> \<not> updating (call c cb s) b"
  by (cases cb) (simp add: exec_plain)

text \<open>The log of invoked callbacks only grows.\<close>

lemma executed_grows:
  "\<exists>ys. executed (execWhenSourceBufferReady b cb w s) = executed s @ ys"
  "\<exists>ys. executed (call b2 cb2 s2) = executed s2 @ (b2, cb2) # ys"
  "\<exists>ys. executed (exec_stmts body s3) = executed s3 @ ys"
proof (induction b cb w s and b2 cb2 s2 and body s3
       rule: execWhenSourceBufferReady_call_exec_stmts.induct)
  case (1 b cb w s0)
  note IH = "1"[OF refl refl]
  show ?case
  proof (cases "queueMap s0 b \<noteq> None \<and> 0 < length (queue_of s0 b)")
    case True
    then show ?thesis by (simp add: execWhenSourceBufferReady.simps Let_def queue_of_def)
  next
    case nq: False
    show ?thesis
    proof (cases "updating s0 b")
      case True
      with nq show ?thesis
        by (simp add: execWhenSourceBufferReady.simps Let_def queue_of_def addEventListener_def)
    next
      case False
      with IH nq obtain ys where
        "executed (call b cb (s0\<lparr>submitted := submitted s0 @ [(b, cb)]\<rparr>))
           = executed s0 @ (b, cb) # ys"
        by (auto simp: queue_of_def)
      with nq False show ?thesis
        by (simp add: execWhenSourceBufferReady.simps Let_def queue_of_def)
    qed
  qed
next
  case (2 b n body s)
  then show ?case by simp
next
  case (3 s)
  then show ?case by simp
next
  case (4 b v rest s)
  then show ?case by simp
next
  case (5 b cb w rest s)
  then show ?case by (metis append.assoc exec_stmts.simps(3))
qed

lemma iteration_executed:
  "\<exists>ys. executed (iteration b h cb rest s) = executed s @ (b, cb) # ys"
proof -
  obtain ys where "executed (call b cb (s\<lparr>queueMap := (queueMap s)(b \<mapsto> rest)\<rparr>))
                     = executed (s\<lparr>queueMap := (queueMap s)(b \<mapsto> rest)\<rparr>) @ (b, cb) # ys"
    using executed_grows(2) by blast
  then show ?thesis by (simp add: iteration_def Let_def)
qed

text \<open>The loop, unfolded once.\<close>

lemma do_while_Nil: "queue_of s b = [] \<Longrightarrow> do_while b h s = Inl (TypeError, s)"
  by (simp add: do_while.simps)

lemma do_while_Cons:
  "queue_of s b = cb # rest \<Longrightarrow>
   do_while b h s =
     (if queue_of (iteration b h cb rest s) b = []
      then Inr (removeEventListener b h (iteration b h cb rest s))
      else if \<not> updating (iteration b h cb rest s) b
      then do_while b h (iteration b h cb rest s)
      else Inr (iteration b h cb rest s))"
  by (simp add: do_while.simps[of b h s] Let_def)

text \<open>On a non-empty queue the loop returns, and the callback at the front is the next one invoked.\<close>

lemma do_while_returns:
  "queue_of s b = cb # rest \<Longrightarrow>
   \<exists>t ys. do_while b h s = Inr t \<and> executed t = executed s @ (b, cb) # ys"
proof (induction b h s arbitrary: cb rest rule: do_while.induct)
  case (1 b h s)
  let ?s' = "iteration b h cb rest s"
  obtain ys where ys: "executed ?s' = executed s @ (b, cb) # ys"
    using iteration_executed by blast
  show ?case
  proof (cases "queue_of ?s' b")
    case Nil
    with "1.prems" ys show ?thesis
      by (simp add: do_while_Cons removeEventListener_def)
  next
    case (Cons cb2 rest2)
    show ?thesis
    proof (cases "updating ?s' b")
      case True
      with "1.prems" ys Cons show ?thesis by (simp add: do_while_Cons)
    next
      case False
      from "1.IH"[OF "1.prems" refl _ False Cons] Cons
      obtain t zs where "do_while b h ?s' = Inr t" "executed t = executed ?s' @ (b, cb2) # zs"
        by auto
      with "1.prems" ys Cons False show ?thesis by (simp add: do_while_Cons)
    qed
  qed
qed

lemma waiting_facts:
  "updating waiting 0" "queue_of waiting 0 = [appending 0 2]"
  "executed waiting = [(0, appending 0 1)]" "diagnostics waiting = []"
  "listeners waiting 0 = [console_listener 0]"
  by (simp_all add: waiting_def eval_defs)

section \<open>Submitting\<close>

lemma submit_free:
  assumes "\<not> updating s b" and "queue_of s b = []"
  shows "execWhenSourceBufferReady b cb w s =
           call b cb (s\<lparr>submitted := submitted s @ [(b, cb)]\<rparr>)"
  using assms by (simp add: execWhenSourceBufferReady.simps Let_def queue_of_def)




text \<open>
  Claim C6. When the source buffer already has a non-empty queue, \<^verbatim>\<open>execWhenSourceBufferReady\<close>
  appends the callback to the end of that queue and returns without invoking it, whatever the
  \<^verbatim>\<open>updating\<close> flag reads: the test of line 38 comes before the test of line 46. Nothing but
  the queue (and the history of submissions) changes; in particular no callback is invoked.
\<close>

theorem submit_to_nonempty_queue:
  assumes "queueMap s b = Some q" and "q \<noteq> []"
  shows "execWhenSourceBufferReady b cb w s =
           s\<lparr>submitted := submitted s @ [(b, cb)], queueMap := (queueMap s)(b \<mapsto> q @ [cb])\<rparr>
         \<and> executed (execWhenSourceBufferReady b cb w s) = executed s
         \<and> queue_of (execWhenSourceBufferReady b cb w s) b = q @ [cb]"
  using assms by (simp add: execWhenSourceBufferReady.simps Let_def queue_of_def)

text \<open>
  The witness: the second callback of the example still waits, the append has ended (the flag
  reads false) and \<^verbatim>\<open>updateend\<close> has not been delivered yet; a third callback is queued behind
  it and not invoked.
\<close>

theorem submit_to_nonempty_queue_witness:
  "queueMap (waiting\<lparr>updating := (updating waiting)(0 := False)\<rparr>) 0 = Some [appending 0 2]
   \<and> [appending 0 2] \<noteq> []
   \<and> \<not> updating (waiting\<lparr>updating := (updating waiting)(0 := False)\<rparr>) 0
   \<and> executed (execWhenSourceBufferReady 0 (appending 0 3) Undefined
        (waiting\<lparr>updating := (updating waiting)(0 := False)\<rparr>)) = [(0, appending 0 1)]
   \<and> queue_of (execWhenSourceBufferReady 0 (appending 0 3) Undefined
        (waiting\<lparr>updating := (updating waiting)(0 := False)\<rparr>)) 0 = [appending 0 2, appending 0 3]"
proof -
  have h: "queueMap (waiting\<lparr>updating := (updating waiting)(0 := False)\<rparr>) 0 = Some [appending 0 2]"
    by (simp add: waiting_def eval_defs)
  have e: "executed waiting = [(0, appending 0 1)]"
    by (simp add: waiting_def eval_defs)
  have u: "\<not> updating (waiting\<lparr>updating := (updating waiting)(0 := False)\<rparr>) 0" by simp
  show ?thesis
    using h e u submit_to_nonempty_queue[OF h, of "appending 0 3" Undefined, THEN conjunct2]
    by simp
qed



section \<open>The listener\<close>

text \<open>
  Claim C5. When the listener runs and the \<^verbatim>\<open>updating\<close> flag reads true, it calls the warning
  sink once with the message of line 71 (when there is a sink to call) and returns: the queue,
  the invoked callbacks and the listeners are what they were. When the flag is cleared and the
  listener runs again, it returns, and the first callback it invokes is the one that was at the
  front of the queue.
\<close>

theorem busy_guard:
  assumes "updating s b"
  shows "onSourceBufferReadyAndQueueNotEmpty b h s = Inr (warn (onWarning h) busy_warning s)
       \<and> queueMap (warn (onWarning h) busy_warning s) = queueMap s
       \<and> executed (warn (onWarning h) busy_warning s) = executed s
       \<and> listeners (warn (onWarning h) busy_warning s) = listeners s
       \<and> (\<forall>f. onWarning h = Some f \<longrightarrow>
             diagnostics (warn (onWarning h) busy_warning s) = f busy_warning (diagnostics s))
       \<and> (\<forall>cb rest. queue_of s b = cb # rest \<longrightarrow>
             (\<exists>t ys. onSourceBufferReadyAndQueueNotEmpty b h
                        ((warn (onWarning h) busy_warning s)\<lparr>updating := (updating s)(b := False)\<rparr>)
                      = Inr t
                    \<and> executed t = executed s @ (b, cb) # ys))"
proof -
  have "\<exists>t ys. onSourceBufferReadyAndQueueNotEmpty b h
                  ((warn (onWarning h) busy_warning s)\<lparr>updating := (updating s)(b := False)\<rparr>) = Inr t
              \<and> executed t = executed s @ (b, cb) # ys"
    if "queue_of s b = cb # rest" for cb rest
  proof -
    let ?s = "(warn (onWarning h) busy_warning s)\<lparr>updating := (updating s)(b := False)\<rparr>"
    have "queue_of ?s b = cb # rest" using that by (simp add: queue_of_def)
    from do_while_returns[OF this, of h] show ?thesis
      by (simp add: onSourceBufferReadyAndQueueNotEmpty_def)
  qed
  then show ?thesis using assms
    by (auto simp: onSourceBufferReadyAndQueueNotEmpty_def)
qed

theorem busy_guard_witness:
  "updating waiting 0
   \<and> onSourceBufferReadyAndQueueNotEmpty 0 (console_listener 0) waiting
       = Inr (waiting\<lparr>diagnostics := [busy_warning]\<rparr>)
   \<and> queue_of (waiting\<lparr>diagnostics := [busy_warning]\<rparr>) 0 = [appending 0 2]
   \<and> (\<exists>t ys. onSourceBufferReadyAndQueueNotEmpty 0 (console_listener 0)
         (waiting\<lparr>diagnostics := [busy_warning], updating := (updating waiting)(0 := False)\<rparr>) = Inr t
       \<and> executed t = [(0, appending 0 1), (0, appending 0 2)] @ ys)"
proof -
  have h: "updating waiting 0" by (rule waiting_facts)
  have w: "warn (onWarning (console_listener 0)) busy_warning waiting
             = waiting\<lparr>diagnostics := [busy_warning]\<rparr>"
    by (simp add: console_listener_def console_warn_def waiting_facts)
  show ?thesis
    using h busy_guard[OF h, of "console_listener 0"] waiting_facts(2,3)
    by (simp add: w queue_of_def)
qed

text \<open>The sample states, evaluated.\<close>

lemma idle_pair_facts:
  "\<not> updating idle_pair 0" "queue_of idle_pair 0 = [idle 2, idle 3]"
  "executed idle_pair = [(0, appending 0 1)]" "diagnostics idle_pair = []"
  "listeners idle_pair 0 = [console_listener 0]"
  by (simp_all add: idle_pair_def eval_defs)

lemma marking_pair_facts:
  "\<not> updating marking_pair 0" "\<not> updating marking_pair 1" "\<not> updating marking_pair 2"
  "queue_of marking_pair 0 = [appending 1 2, appending 2 3]"
  "executed marking_pair = [(0, appending 0 1)]" "diagnostics marking_pair = []"
  "listeners marking_pair 0 = [console_listener 0]"
  by (simp_all add: marking_pair_def eval_defs)

lemma appended_facts:
  "updating appended 0" "queue_of appended 0 = []" "listeners appended 0 = []"
  "diagnostics appended = []"
  by (simp_all add: appended_def eval_defs)

text \<open>
  A call for a busy source buffer with no waiting callback queues the callback and registers a
  listener; the first \<^verbatim>\<open>updateend\<close> after it calls that listener alone.
\<close>

lemma submit_busy:
  assumes "updating s b" and "queue_of s b = []"
  shows "execWhenSourceBufferReady b cb w s =
           addEventListener b (default_param w)
             (s\<lparr>submitted := submitted s @ [(b, cb)], queueMap := (queueMap s)(b \<mapsto> [cb])\<rparr>)"
  using assms by (auto simp: execWhenSourceBufferReady.simps Let_def queue_of_def split: option.splits)

lemma dispatch_single:
  "listeners s b = [h] \<Longrightarrow>
   dispatch_updateend b s =
     (case onSourceBufferReadyAndQueueNotEmpty b h s of
        Inr s' \<Rightarrow> s' | Inl (e, s') \<Rightarrow> s'\<lparr>uncaught := uncaught s' @ [e]\<rparr>)"
  by (simp add: dispatch_updateend_def)

lemma first_dispatch_busy:
  assumes "updating s b" and "queue_of s b = []" and "listeners s b = []"
  shows "dispatch_updateend b (execWhenSourceBufferReady b cb w s) =
           warn (default_param w) busy_warning (execWhenSourceBufferReady b cb w s)"
proof -
  let ?h = "\<lparr>hid = fresh s, onWarning = default_param w\<rparr>"
  let ?s1 = "execWhenSourceBufferReady b cb w s"
  have l: "listeners ?s1 b = [?h]" and u: "updating ?s1 b"
    using assms by (simp_all add: submit_busy addEventListener_def)
  show ?thesis
    by (simp add: dispatch_single[OF l] onSourceBufferReadyAndQueueNotEmpty_def u)
qed

lemma first_dispatch_free:
  assumes "updating s b" and "queue_of s b = []" and "listeners s b = []" and "leaves_free b cb"
  shows "diagnostics (dispatch_updateend b
           ((execWhenSourceBufferReady b cb w s)\<lparr>updating := (updating s)(b := False)\<rparr>)) =
         diagnostics (warn (default_param w) idle_warning s)"
proof -
  let ?h = "\<lparr>hid = fresh s, onWarning = default_param w\<rparr>"
  let ?s1 = "(execWhenSourceBufferReady b cb w s)\<lparr>updating := (updating s)(b := False)\<rparr>"
  have l: "listeners ?s1 b = [?h]" and u: "\<not> updating ?s1 b" and q: "queue_of ?s1 b = [cb]"
    and d: "diagnostics ?s1 = diagnostics s"
    using assms by (simp_all add: submit_busy addEventListener_def queue_of_def)
  let ?s2 = "call b cb (?s1\<lparr>queueMap := (queueMap ?s1)(b \<mapsto> [])\<rparr>)"
  have c1: "\<not> updating ?s2 b"
    using u by (intro call_leaves_free[OF assms(4)]) simp
  have c2: "queue_of ?s2 b = []" "diagnostics ?s2 = diagnostics s"
    using d by (simp_all add: call_plain[OF leaves_free_plain[OF assms(4)]] queue_of_def)
  note c = c1 c2
  have it: "iteration b ?h cb [] ?s1 = warn (default_param w) idle_warning ?s2"
    using c(1) by (simp add: iteration_def Let_def)
  have "do_while b ?h ?s1 = Inr (removeEventListener b ?h (warn (default_param w) idle_warning ?s2))"
    using c(2) by (simp add: do_while_Cons[OF q] it)
  then have "dispatch_updateend b ?s1 = removeEventListener b ?h (warn (default_param w) idle_warning ?s2)"
    using u by (simp add: dispatch_single[OF l] onSourceBufferReadyAndQueueNotEmpty_def)
  then show ?thesis using c(3)
    by (cases "default_param w") (simp_all add: removeEventListener_def)
qed

text \<open>No call removes an entry of the registry.\<close>

lemma registry_keeps:
  "queueMap s b \<noteq> None \<Longrightarrow> queueMap (execWhenSourceBufferReady b1 cb w s) b \<noteq> None"
  "queueMap s2 b \<noteq> None \<Longrightarrow> queueMap (call b2 cb2 s2) b \<noteq> None"
  "queueMap s3 b \<noteq> None \<Longrightarrow> queueMap (exec_stmts body s3) b \<noteq> None"
proof (induction b1 cb w s and b2 cb2 s2 and body s3
       rule: execWhenSourceBufferReady_call_exec_stmts.induct)
  case (1 b1 cb w s0)
  note IH = "1.IH"[OF refl refl]
  show ?case
  proof (cases "queueMap s0 b1 \<noteq> None \<and> 0 < length (queue_of s0 b1)")
    case True
    with "1.prems" show ?thesis
      by (simp add: execWhenSourceBufferReady.simps Let_def queue_of_def)
  next
    case nq: False
    show ?thesis
    proof (cases "updating s0 b1")
      case True
      with nq "1.prems" show ?thesis
        by (simp add: execWhenSourceBufferReady.simps Let_def queue_of_def addEventListener_def)
    next
      case False
      let ?x = "s0\<lparr>submitted := submitted s0 @ [(b1, cb)]\<rparr>"
      have a1: "\<not> (queueMap ?x b1 \<noteq> None \<and> 0 < length (queue_of ?x b1))"
        using nq by (simp add: queue_of_def)
      have a2: "\<not> updating ?x b1" using False by simp
      have a3: "queueMap ?x b \<noteq> None"
        using "1.prems" by simp
      from IH[OF a1 a2 a3] have
        "queueMap (call b1 cb (s0\<lparr>submitted := submitted s0 @ [(b1, cb)]\<rparr>)) b \<noteq> None"
        by simp
      with nq False show ?thesis
        by (auto simp: execWhenSourceBufferReady.simps Let_def queue_of_def)
    qed
  qed
next
  case (2 b2 n body s)
  then show ?case by simp
next
  case (3 s)
  then show ?case by simp
next
  case (4 b v rest s)
  then show ?case by simp
next
  case (5 b cb w rest s)
  then show ?case by simp
qed

lemma iteration_keeps: "queueMap (iteration b h cb rest s) b \<noteq> None"
proof -
  have "queueMap (call b cb (s\<lparr>queueMap := (queueMap s)(b \<mapsto> rest)\<rparr>)) b \<noteq> None"
    by (rule registry_keeps(2)) simp
  then show ?thesis by (simp add: iteration_def Let_def)
qed

text \<open>A queue of callbacks that leave the source buffer free is emptied by one run of the loop.\<close>

lemma iteration_leaves_free:
  assumes "leaves_free b c" and "\<not> updating s b"
  shows "queueMap (iteration b h c cs s) = (queueMap s)(b \<mapsto> cs)"
    and "executed (iteration b h c cs s) = executed s @ [(b, c)]"
    and "listeners (iteration b h c cs s) = listeners s"
    and "\<not> updating (iteration b h c cs s) b"
    and "diagnostics (iteration b h c cs s) =
           (case onWarning h of None \<Rightarrow> diagnostics s | Some f \<Rightarrow> f idle_warning (diagnostics s))"
proof -
  let ?s0 = "s\<lparr>queueMap := (queueMap s)(b \<mapsto> cs)\<rparr>"
  have u: "\<not> updating (call b c ?s0) b"
    using assms(2) by (intro call_leaves_free[OF assms(1)]) simp
  then have it: "iteration b h c cs s = warn (onWarning h) idle_warning (call b c ?s0)"
    by (simp add: iteration_def Let_def)
  note cp = call_plain[OF leaves_free_plain[OF assms(1)], of b ?s0]
  show "queueMap (iteration b h c cs s) = (queueMap s)(b \<mapsto> cs)"
    and "executed (iteration b h c cs s) = executed s @ [(b, c)]"
    and "listeners (iteration b h c cs s) = listeners s"
    unfolding it by (simp_all add: cp)
  show "\<not> updating (iteration b h c cs s) b" unfolding it using u by simp
  have "diagnostics (call b c ?s0) = diagnostics s" by (simp add: cp)
  then show "diagnostics (iteration b h c cs s) =
           (case onWarning h of None \<Rightarrow> diagnostics s | Some f \<Rightarrow> f idle_warning (diagnostics s))"
    unfolding it by (cases "onWarning h") simp_all
qed

lemma drain_all:
  assumes "\<forall>c\<in>set q. leaves_free b c" and "q \<noteq> []" and "queue_of s b = q" and "\<not> updating s b"
  shows "\<exists>t. do_while b h s = Inr t
           \<and> queueMap t = (queueMap s)(b \<mapsto> [])
           \<and> executed t = executed s @ map (Pair b) q
           \<and> listeners t = (listeners s)(b := filter (\<lambda>h'. hid h' \<noteq> hid h) (listeners s b))
           \<and> diagnostics t =
               ((\<lambda>out. case onWarning h of None \<Rightarrow> out | Some f \<Rightarrow> f idle_warning out) ^^ length q)
                 (diagnostics s)"
  using assms
proof (induction q arbitrary: s)
  case Nil
  then show ?case by simp
next
  case (Cons c cs)
  let ?s' = "iteration b h c cs s"
  from Cons.prems have lf: "leaves_free b c" by simp
  note it = iteration_leaves_free[OF lf Cons.prems(4), of h cs]
  have q': "queue_of ?s' b = cs" by (simp add: queue_of_def it(1))
  note dw = do_while_Cons[OF Cons.prems(3), of h]
  show ?case
  proof (cases "cs = []")
    case True
    with dw q' have "do_while b h s = Inr (removeEventListener b h ?s')" by simp
    then show ?thesis using it True
      by (cases "onWarning h") (simp_all add: removeEventListener_def fun_eq_iff)
  next
    case False
    with dw q' it(4) have d: "do_while b h s = do_while b h ?s'" by simp
    from Cons.prems have "\<forall>c\<in>set cs. leaves_free b c" by simp
    from Cons.IH[OF this False q' it(4)] obtain t where t:
      "do_while b h ?s' = Inr t"
      "queueMap t = (queueMap ?s')(b \<mapsto> [])"
      "executed t = executed ?s' @ map (Pair b) cs"
      "listeners t = (listeners ?s')(b := filter (\<lambda>h'. hid h' \<noteq> hid h) (listeners ?s' b))"
      "diagnostics t =
         ((\<lambda>out. case onWarning h of None \<Rightarrow> out | Some f \<Rightarrow> f idle_warning out) ^^ length cs)
           (diagnostics ?s')"
      by blast
    show ?thesis
      using d t it by (cases "onWarning h") (simp_all add: funpow_swap1 fun_eq_iff)
  qed
qed

lemma iteration_leaves_free_flags:
  assumes "leaves_free b c" and "\<not> updating s b"
  shows "updating (iteration b h c cs s) = (\<lambda>x. flag_after x (stmts_of c) (updating s x))"
proof -
  let ?s0 = "s\<lparr>queueMap := (queueMap s)(b \<mapsto> cs)\<rparr>"
  have u: "\<not> updating (call b c ?s0) b"
    using assms(2) by (intro call_leaves_free[OF assms(1)]) simp
  then have it: "iteration b h c cs s = warn (onWarning h) idle_warning (call b c ?s0)"
    by (simp add: iteration_def Let_def)
  show ?thesis unfolding it using assms(1)
    by (cases c) (simp add: exec_plain)
qed

lemma drain_all_flags:
  assumes "\<forall>c\<in>set q. leaves_free b c" and "q \<noteq> []" and "queue_of s b = q" and "\<not> updating s b"
  shows "\<exists>t. do_while b h s = Inr t
           \<and> updating t = (\<lambda>x. fold (\<lambda>c. flag_after x (stmts_of c)) q (updating s x))"
  using assms
proof (induction q arbitrary: s)
  case Nil
  then show ?case by simp
next
  case (Cons c cs)
  let ?s' = "iteration b h c cs s"
  from Cons.prems have lf: "leaves_free b c" by simp
  note it = iteration_leaves_free[OF lf Cons.prems(4), of h cs]
  note fl = iteration_leaves_free_flags[OF lf Cons.prems(4), of h cs]
  have q': "queue_of ?s' b = cs" by (simp add: queue_of_def it(1))
  note dw = do_while_Cons[OF Cons.prems(3), of h]
  show ?case
  proof (cases "cs = []")
    case True
    with dw q' have "do_while b h s = Inr (removeEventListener b h ?s')" by simp
    then show ?thesis using fl True by (simp add: removeEventListener_def)
  next
    case False
    with dw q' it(4) have d: "do_while b h s = do_while b h ?s'" by simp
    from Cons.prems have "\<forall>c\<in>set cs. leaves_free b c" by simp
    from Cons.IH[OF this False q' it(4)] obtain t where
      "do_while b h ?s' = Inr t"
      "updating t = (\<lambda>x. fold (\<lambda>c. flag_after x (stmts_of c)) cs (updating ?s' x))"
      by blast
    then show ?thesis using d fl by simp
  qed
qed

text \<open>
  Claim C8. In a pass of the loop, when the \<^verbatim>\<open>updating\<close> flag still reads false right after the
  callback taken from the queue was invoked, the warning sink is called once with the message of
  line 91 (when there is a sink to call), and the loop goes on as usual: it stops and removes the
  listener when the queue is empty, and otherwise carries on with the next pass, which invokes
  the callback now at the front.
\<close>

theorem idle_warning_continues:
  assumes "queue_of s b = cb # rest"
    and "s1 = call b cb (s\<lparr>queueMap := (queueMap s)(b \<mapsto> rest)\<rparr>)"
    and "\<not> updating s1 b"
  shows "iteration b h cb rest s = warn (onWarning h) idle_warning s1
       \<and> (\<forall>f. onWarning h = Some f \<longrightarrow>
             diagnostics (iteration b h cb rest s) = f idle_warning (diagnostics s1))
       \<and> do_while b h s =
           (if queue_of s1 b = [] then Inr (removeEventListener b h (warn (onWarning h) idle_warning s1))
            else do_while b h (warn (onWarning h) idle_warning s1))
       \<and> (\<forall>cb2 rest2. queue_of s1 b = cb2 # rest2 \<longrightarrow>
             (\<exists>t ys. do_while b h s = Inr t \<and> executed t = executed s1 @ (b, cb2) # ys))"
proof -
  let ?s2 = "warn (onWarning h) idle_warning s1"
  have it: "iteration b h cb rest s = ?s2"
    using assms(2,3) by (simp add: iteration_def Let_def)
  have dw: "do_while b h s =
           (if queue_of s1 b = [] then Inr (removeEventListener b h ?s2) else do_while b h ?s2)"
    using assms(3) by (simp add: do_while_Cons[OF assms(1)] it)
  have "\<exists>t ys. do_while b h s = Inr t \<and> executed t = executed s1 @ (b, cb2) # ys"
    if "queue_of s1 b = cb2 # rest2" for cb2 rest2
  proof -
    have "queue_of ?s2 b = cb2 # rest2" using that by simp
    from do_while_returns[OF this, of h] dw that show ?thesis by simp
  qed
  then show ?thesis using it dw by auto
qed

theorem idle_warning_continues_witness:
  "queue_of idle_pair 0 = idle 2 # [idle 3]
   \<and> \<not> updating (call 0 (idle 2) (idle_pair\<lparr>queueMap := (queueMap idle_pair)(0 \<mapsto> [idle 3])\<rparr>)) 0
   \<and> diagnostics (iteration 0 (console_listener 0) (idle 2) [idle 3] idle_pair) = [idle_warning]
   \<and> (\<exists>t ys. do_while 0 (console_listener 0) idle_pair = Inr t
         \<and> executed t = [(0, appending 0 1), (0, idle 2), (0, idle 3)] @ ys)"
proof -
  let ?s1 = "call 0 (idle 2) (idle_pair\<lparr>queueMap := (queueMap idle_pair)(0 \<mapsto> [idle 3])\<rparr>)"
  have h1: "queue_of idle_pair 0 = idle 2 # [idle 3]" by (simp add: idle_pair_facts)
  have s1: "?s1 = idle_pair\<lparr>queueMap := (queueMap idle_pair)(0 \<mapsto> [idle 3]),
                         executed := executed idle_pair @ [(0, idle 2)]\<rparr>"
    by (simp add: idle_def)
  have h3: "\<not> updating ?s1 0" unfolding s1 by (simp add: idle_pair_facts)
  have q: "queue_of ?s1 0 = idle 3 # []" unfolding s1 by (simp add: queue_of_def)
  have e: "executed ?s1 = [(0, appending 0 1), (0, idle 2)]" and d: "diagnostics ?s1 = []"
    unfolding s1 by (simp_all add: idle_pair_facts)
  note t = idle_warning_continues[OF h1 refl h3, of "console_listener 0", THEN conjunct2]
  from t have "diagnostics (iteration 0 (console_listener 0) (idle 2) [idle 3] idle_pair)
                  = console_warn idle_warning (diagnostics ?s1)"
    by (simp add: console_listener_def)
  then have w: "diagnostics (iteration 0 (console_listener 0) (idle 2) [idle 3] idle_pair)
                  = [idle_warning]"
    unfolding d by (simp add: console_warn_def)
  from t q obtain t' ys where "do_while 0 (console_listener 0) idle_pair = Inr t'"
    "executed t' = executed ?s1 @ (0, idle 3) # ys" by blast
  then have "\<exists>t ys. do_while 0 (console_listener 0) idle_pair = Inr t
         \<and> executed t = [(0, appending 0 1), (0, idle 2), (0, idle 3)] @ ys"
    unfolding e by simp
  then show ?thesis using h1 h3 w by blast
qed

text \<open>
  Claim C2. A listener that finds the source buffer free enters the loop. At every pass of the
  loop: when, after the callback \<open>cb\<close> taken from the queue was invoked (state \<open>s1\<close>, and \<open>s1'\<close> after
  the warning of line 90), the source buffer is still free and the queue still not empty, the
  loop goes round again within the same call of the listener: it takes the callback \<open>cb2\<close> now
  at the front, invokes it (state \<open>s2\<close>) and goes on from there. When every queued callback
  leaves the source buffer free, that one call of the listener (one delivery of \<^verbatim>\<open>updateend\<close>)
  invokes all of them in order, with their effects on the flags and one warning each, leaves
  the queue empty and removes the listener.
\<close>

theorem drain_without_waiting:
  assumes "queue_of s b = cb # rest"
    and "s1 = call b cb (s\<lparr>queueMap := (queueMap s)(b \<mapsto> rest)\<rparr>)"
    and "s1' = (if \<not> updating s1 b then warn (onWarning h) idle_warning s1 else s1)"
    and "s2 = call b cb2 (s1'\<lparr>queueMap := (queueMap s1')(b \<mapsto> rest2)\<rparr>)"
    and "s2' = (if \<not> updating s2 b then warn (onWarning h) idle_warning s2 else s2)"
  shows "(\<not> updating s b \<longrightarrow> onSourceBufferReadyAndQueueNotEmpty b h s = do_while b h s)
       \<and> (\<not> updating s1' b \<and> queue_of s1' b = cb2 # rest2 \<longrightarrow>
            do_while b h s =
              (if queue_of s2' b = [] then Inr (removeEventListener b h s2')
               else if \<not> updating s2' b then do_while b h s2' else Inr s2')
          \<and> (\<exists>t ys. do_while b h s = Inr t \<and> executed t = executed s1' @ (b, cb2) # ys))
       \<and> (\<not> updating s b \<and> (\<forall>c\<in>set (cb # rest). leaves_free b c) \<longrightarrow>
          (\<exists>t. onSourceBufferReadyAndQueueNotEmpty b h s = Inr t
              \<and> queue_of t b = []
              \<and> executed t = executed s @ map (Pair b) (cb # rest)
              \<and> updating t = (\<lambda>x. fold (\<lambda>c. flag_after x (stmts_of c)) (cb # rest) (updating s x))
              \<and> diagnostics t =
                  ((\<lambda>out. case onWarning h of None \<Rightarrow> out | Some f \<Rightarrow> f idle_warning out)
                     ^^ length (cb # rest)) (diagnostics s)
              \<and> hid h \<notin> hid ` set (listeners t b)
              \<and> (listeners s b = [h] \<longrightarrow> dispatch_updateend b s = t \<and> listeners t b = [])))"
proof -
  have g: "onSourceBufferReadyAndQueueNotEmpty b h s = do_while b h s" if "\<not> updating s b"
    using that by (simp add: onSourceBufferReadyAndQueueNotEmpty_def)
  have i1: "iteration b h cb rest s = s1'"
    by (simp add: iteration_def Let_def assms(2,3))
  have i2: "iteration b h cb2 rest2 s1' = s2'"
    by (simp add: iteration_def Let_def assms(4,5))
  have "do_while b h s =
              (if queue_of s2' b = [] then Inr (removeEventListener b h s2')
               else if \<not> updating s2' b then do_while b h s2' else Inr s2')
        \<and> (\<exists>t ys. do_while b h s = Inr t \<and> executed t = executed s1' @ (b, cb2) # ys)"
    if "\<not> updating s1' b" and "queue_of s1' b = cb2 # rest2"
  proof -
    have "do_while b h s = do_while b h s1'"
      using that by (simp add: do_while_Cons[OF assms(1)] i1)
    then show ?thesis
      using do_while_returns[OF that(2), of h] do_while_Cons[OF that(2), of h]
      by (simp add: i2)
  qed
  moreover have "\<exists>t. onSourceBufferReadyAndQueueNotEmpty b h s = Inr t
              \<and> queue_of t b = []
              \<and> executed t = executed s @ map (Pair b) (cb # rest)
              \<and> updating t = (\<lambda>x. fold (\<lambda>c. flag_after x (stmts_of c)) (cb # rest) (updating s x))
              \<and> diagnostics t =
                  ((\<lambda>out. case onWarning h of None \<Rightarrow> out | Some f \<Rightarrow> f idle_warning out)
                     ^^ length (cb # rest)) (diagnostics s)
              \<and> hid h \<notin> hid ` set (listeners t b)
              \<and> (listeners s b = [h] \<longrightarrow> dispatch_updateend b s = t \<and> listeners t b = [])"
    if "\<not> updating s b" and "\<forall>c\<in>set (cb # rest). leaves_free b c"
  proof -
    from drain_all[OF that(2) _ assms(1) that(1), of h] obtain t where t:
      "do_while b h s = Inr t" "queueMap t = (queueMap s)(b \<mapsto> [])"
      "executed t = executed s @ map (Pair b) (cb # rest)"
      "listeners t = (listeners s)(b := filter (\<lambda>h'. hid h' \<noteq> hid h) (listeners s b))"
      "diagnostics t =
         ((\<lambda>out. case onWarning h of None \<Rightarrow> out | Some f \<Rightarrow> f idle_warning out)
            ^^ length (cb # rest)) (diagnostics s)"
      by auto
    from drain_all_flags[OF that(2) _ assms(1) that(1), of h] t(1)
    have fl: "updating t = (\<lambda>x. fold (\<lambda>c. flag_after x (stmts_of c)) (cb # rest) (updating s x))"
      by auto
    have "dispatch_updateend b s = t \<and> listeners t b = []" if "listeners s b = [h]"
      using t(1,4) g[OF \<open>\<not> updating s b\<close>] that by (simp add: dispatch_single[OF that])
    moreover have "queue_of t b = []" using t(2) by (simp add: queue_of_def)
    moreover have "hid h \<notin> hid ` set (listeners t b)" using t(4) by auto
    ultimately show ?thesis using t(1,3,5) fl g[OF that(1)]
      by (auto intro!: exI[of _ t])
  qed
  ultimately show ?thesis using g by blast
qed

theorem drain_without_waiting_witness:
  "queue_of marking_pair 0 = appending 1 2 # [appending 2 3]
   \<and> \<not> updating marking_pair 0
   \<and> leaves_free 0 (appending 1 2) \<and> leaves_free 0 (appending 2 3)
   \<and> listeners marking_pair 0 = [console_listener 0]
   \<and> \<not> updating (warn (onWarning (console_listener 0)) idle_warning
          (call 0 (appending 1 2) (marking_pair\<lparr>queueMap := (queueMap marking_pair)(0 \<mapsto> [appending 2 3])\<rparr>))) 0
   \<and> queue_of (warn (onWarning (console_listener 0)) idle_warning
          (call 0 (appending 1 2) (marking_pair\<lparr>queueMap := (queueMap marking_pair)(0 \<mapsto> [appending 2 3])\<rparr>))) 0
       = appending 2 3 # []
   \<and> (\<exists>t ys. do_while 0 (console_listener 0) marking_pair = Inr t
         \<and> executed t = [(0, appending 0 1), (0, appending 1 2), (0, appending 2 3)] @ ys)
   \<and> queue_of (dispatch_updateend 0 marking_pair) 0 = []
   \<and> executed (dispatch_updateend 0 marking_pair)
       = [(0, appending 0 1), (0, appending 1 2), (0, appending 2 3)]
   \<and> updating (dispatch_updateend 0 marking_pair) 1
   \<and> updating (dispatch_updateend 0 marking_pair) 2
   \<and> \<not> updating (dispatch_updateend 0 marking_pair) 0
   \<and> diagnostics (dispatch_updateend 0 marking_pair) = [idle_warning, idle_warning]
   \<and> listeners (dispatch_updateend 0 marking_pair) 0 = []"
proof -
  let ?h = "console_listener 0"
  let ?s1 = "call 0 (appending 1 2) (marking_pair\<lparr>queueMap := (queueMap marking_pair)(0 \<mapsto> [appending 2 3])\<rparr>)"
  let ?s1' = "if \<not> updating ?s1 0 then warn (onWarning ?h) idle_warning ?s1 else ?s1"
  have h1: "queue_of marking_pair 0 = appending 1 2 # [appending 2 3]"
    and h2: "\<not> updating marking_pair 0" and h5: "listeners marking_pair 0 = [?h]"
    by (simp_all add: marking_pair_facts)
  have lf: "leaves_free 0 (appending 1 2)" "leaves_free 0 (appending 2 3)"
    by (simp_all add: appending_def)
  have s1: "?s1 = marking_pair\<lparr>queueMap := (queueMap marking_pair)(0 \<mapsto> [appending 2 3]),
                    executed := executed marking_pair @ [(0, appending 1 2)],
                    updating := (updating marking_pair)(1 := True)\<rparr>"
    by (simp add: appending_def)
  have u1: "\<not> updating ?s1 0" unfolding s1 using h2 by simp
  have q1: "queue_of ?s1 0 = appending 2 3 # []" unfolding s1 by (simp add: queue_of_def)
  have e1: "executed ?s1 = [(0, appending 0 1), (0, appending 1 2)]"
    unfolding s1 by (simp add: marking_pair_facts)
  have w1: "?s1' = warn (onWarning ?h) idle_warning ?s1" using u1 by simp
  have a: "\<not> updating (warn (onWarning ?h) idle_warning ?s1) 0"
    and b: "queue_of (warn (onWarning ?h) idle_warning ?s1) 0 = appending 2 3 # []"
    and e: "executed (warn (onWarning ?h) idle_warning ?s1) = [(0, appending 0 1), (0, appending 1 2)]"
    using u1 q1 e1 by simp_all
  note t = drain_without_waiting[OF h1 refl refl refl refl, of ?h "appending 2 3" "[]",
             THEN conjunct2, unfolded w1]
  from t a b obtain t1 ys where "do_while 0 ?h marking_pair = Inr t1"
    "executed t1 = executed (warn (onWarning ?h) idle_warning ?s1) @ (0, appending 2 3) # ys"
    by blast
  then have c: "\<exists>t ys. do_while 0 ?h marking_pair = Inr t
         \<and> executed t = [(0, appending 0 1), (0, appending 1 2), (0, appending 2 3)] @ ys"
    unfolding e by simp
  from t h2 h5 lf obtain t' where t':
    "queue_of t' 0 = []"
    "executed t' = executed marking_pair @ map (Pair 0) [appending 1 2, appending 2 3]"
    "updating t' = (\<lambda>x. fold (\<lambda>c. flag_after x (stmts_of c)) [appending 1 2, appending 2 3]
                       (updating marking_pair x))"
    "diagnostics t' =
       ((\<lambda>out. case onWarning ?h of None \<Rightarrow> out | Some f \<Rightarrow> f idle_warning out)
          ^^ length [appending 1 2, appending 2 3]) (diagnostics marking_pair)"
    "dispatch_updateend 0 marking_pair = t'" "listeners t' 0 = []"
    by auto
  have d: "queue_of (dispatch_updateend 0 marking_pair) 0 = []"
    "executed (dispatch_updateend 0 marking_pair)
       = [(0, appending 0 1), (0, appending 1 2), (0, appending 2 3)]"
    "updating (dispatch_updateend 0 marking_pair) 1"
    "updating (dispatch_updateend 0 marking_pair) 2"
    "\<not> updating (dispatch_updateend 0 marking_pair) 0"
    "diagnostics (dispatch_updateend 0 marking_pair) = [idle_warning, idle_warning]"
    "listeners (dispatch_updateend 0 marking_pair) 0 = []"
    unfolding t'(5) using t'(1,2,3,4,6)
    by (simp_all add: marking_pair_facts appending_def console_listener_def console_warn_def
          numeral_2_eq_2)
  show ?thesis using h1 h2 h5 lf a b c d by blast
qed

text \<open>
  Claim C7 as stated says that the lookup reports the queue absent after the last callback was
  taken. In the example, the listener takes the one queued callback, the queue is empty, and
  the lookup returns the empty array.
\<close>

theorem drained_queue_absent_counterexample:
  "do_while 0 (console_listener 0) (waiting\<lparr>updating := (updating waiting)(0 := False)\<rparr>)
     = Inr drained
   \<and> queue_of (waiting\<lparr>updating := (updating waiting)(0 := False)\<rparr>) 0 = [appending 0 2]
   \<and> queue_of drained 0 = []
   \<and> queueMap drained 0 = Some []
   \<and> queueMap drained 0 \<noteq> None"
  by (simp add: drained_def waiting_def eval_defs)

text \<open>
  Claim C7, as amended. When the loop returns with the queue of the source buffer empty, it has
  removed its own listener, and the registry still holds an entry for the source buffer: the
  empty array. (Line 58 is the branch of \<^verbatim>\<open>execWhenSourceBufferReady\<close> that finds such an
  entry again.)
\<close>

theorem drained_queue_stays_registered:
  assumes "do_while b h s = Inr t" and "queue_of t b = []"
  shows "queueMap t b = Some [] \<and> hid h \<notin> hid ` set (listeners t b)"
  using assms
proof (induction b h s rule: do_while.induct)
  case (1 b h s)
  show ?case
  proof (cases "queue_of s b")
    case Nil
    with "1.prems" show ?thesis by (simp add: do_while_Nil)
  next
    case (Cons cb rest)
    let ?s' = "iteration b h cb rest s"
    note dw = do_while_Cons[OF Cons, of h]
    show ?thesis
    proof (cases "queue_of ?s' b = []")
      case True
      with dw "1.prems" have t: "t = removeEventListener b h ?s'" by simp
      from True iteration_keeps[of b h cb rest s] have "queueMap ?s' b = Some []"
        by (auto simp: queue_of_def)
      then show ?thesis by (auto simp: t removeEventListener_def)
    next
      case ne: False
      show ?thesis
      proof (cases "updating ?s' b")
        case True
        with dw ne "1.prems" show ?thesis by simp
      next
        case False
        with dw ne "1.prems" have "do_while b h ?s' = Inr t" by simp
        from "1.IH"[OF Cons refl _ False this "1.prems"(2)] ne show ?thesis by simp
      qed
    qed
  qed
qed

theorem drained_queue_stays_registered_witness:
  "do_while 0 (console_listener 0) (waiting\<lparr>updating := (updating waiting)(0 := False)\<rparr>)
     = Inr drained
   \<and> queue_of drained 0 = []
   \<and> queueMap drained 0 = Some []
   \<and> hid (console_listener 0) \<notin> hid ` set (listeners drained 0)"
proof -
  have h1: "do_while 0 (console_listener 0) (waiting\<lparr>updating := (updating waiting)(0 := False)\<rparr>)
     = Inr drained"
    and h2: "queue_of drained 0 = []"
    by (simp_all add: drained_def waiting_def eval_defs)
  show ?thesis using h1 h2 drained_queue_stays_registered[OF h1 h2] by simp
qed

text \<open>
  Claim C10 as stated lets the sink argument of any call decide whether warnings appear. A call
  that finds callbacks waiting returns at line 42, before the listener of line 68 is made, and
  its sink is not used. In the first run the listener was registered with \<^verbatim>\<open>null\<close> and the third
  callback is submitted with \<^verbatim>\<open>undefined\<close>: no warning appears, neither the one of line 70 nor the
  one of line 90 about the third callback. In the second run the listener was registered with
  \<^verbatim>\<open>undefined\<close> and the third callback is submitted with \<^verbatim>\<open>null\<close>: every warning appears.
\<close>

theorem sink_of_appending_call_unused_counterexample:
  "executed (run_events silenced_run init) = [(0, appending 0 1), (0, idle 2), (0, idle 3)]
   \<and> diagnostics (run_events silenced_run init) = []
   \<and> executed (run_events warned_run init) = [(0, appending 0 1), (0, idle 2), (0, idle 3)]
   \<and> diagnostics (run_events warned_run init) = [busy_warning, idle_warning, idle_warning]"
  by (simp add: silenced_run_def warned_run_def eval_defs)

text \<open>A call that does not register a listener does not use its sink.\<close>

lemma sink_unused:
  assumes "\<not> (updating s b \<and> queue_of s b = [])"
  shows "execWhenSourceBufferReady b cb w s = execWhenSourceBufferReady b cb w' s"
  using assms
  by (auto simp: execWhenSourceBufferReady.simps Let_def queue_of_def split: option.splits)

lemma registered_listener:
  assumes "updating s b" and "queue_of s b = []"
  shows "listeners (execWhenSourceBufferReady b cb w s) b
           = listeners s b @ [\<lparr>hid = fresh s, onWarning = default_param w\<rparr>]"
  using assms by (simp add: submit_busy addEventListener_def)

text \<open>
  Claim C10, as amended. The sink of a listener is the one passed to the call that registered
  it, the call that found the source buffer busy, no callback waiting and (as always when the
  queue is empty and callbacks do not submit themselves) no listener. Passing \<^verbatim>\<open>undefined\<close>
  there does not silence the warnings: the default parameter puts \<^verbatim>\<open>console.warn\<close> in its place,
  and both warnings (line 70, when the listener finds the source buffer busy; line 90, when the
  callback left it free) reach the diagnostic stream. With \<^verbatim>\<open>null\<close> there, or with a function
  that does nothing, the stream stays as it was. The sink passed to any other call (one that
  finds callbacks waiting, or the source buffer free) changes nothing.
\<close>

theorem registering_call_fixes_sink:
  assumes "updating s b" and "queue_of s b = []" and "listeners s b = []"
    and "\<not> (updating s2 b \<and> queue_of s2 b = [])"
  shows "default_param Undefined = Some console_warn
       \<and> listeners (execWhenSourceBufferReady b cb w s) b
           = [\<lparr>hid = fresh s, onWarning = default_param w\<rparr>]
       \<and> diagnostics (dispatch_updateend b (execWhenSourceBufferReady b cb Undefined s))
           = diagnostics s @ [busy_warning]
       \<and> diagnostics (dispatch_updateend b (execWhenSourceBufferReady b cb Null s)) = diagnostics s
       \<and> diagnostics (dispatch_updateend b (execWhenSourceBufferReady b cb (Fn (\<lambda>msg out. out)) s))
           = diagnostics s
       \<and> (leaves_free b cb \<longrightarrow>
            diagnostics (dispatch_updateend b
              ((execWhenSourceBufferReady b cb Undefined s)\<lparr>updating := (updating s)(b := False)\<rparr>))
              = diagnostics s @ [idle_warning]
          \<and> diagnostics (dispatch_updateend b
              ((execWhenSourceBufferReady b cb Null s)\<lparr>updating := (updating s)(b := False)\<rparr>))
              = diagnostics s
          \<and> diagnostics (dispatch_updateend b
              ((execWhenSourceBufferReady b cb (Fn (\<lambda>msg out. out)) s)\<lparr>updating := (updating s)(b := False)\<rparr>))
              = diagnostics s)
       \<and> execWhenSourceBufferReady b cb2 w1 s2 = execWhenSourceBufferReady b cb2 w2 s2"
proof -
  have d: "diagnostics (execWhenSourceBufferReady b cb w s) = diagnostics s" for w
    using assms(1,2) by (simp add: submit_busy addEventListener_def)
  have l: "listeners (execWhenSourceBufferReady b cb w s) b
           = [\<lparr>hid = fresh s, onWarning = default_param w\<rparr>]"
    using registered_listener[OF assms(1,2), of cb w] assms(3) by simp
  show ?thesis
    using first_dispatch_busy[OF assms(1-3)] first_dispatch_free[OF assms(1-3)] d l
      sink_unused[OF assms(4), of cb2 w1 w2]
    by (simp add: console_warn_def)
qed

theorem registering_call_fixes_sink_witness:
  "updating appended 0 \<and> queue_of appended 0 = [] \<and> listeners appended 0 = []
   \<and> \<not> (updating waiting 0 \<and> queue_of waiting 0 = [])
   \<and> leaves_free 0 (idle 2)
   \<and> listeners (execWhenSourceBufferReady 0 (idle 2) Undefined appended) 0 = [console_listener 0]
   \<and> diagnostics (dispatch_updateend 0 (execWhenSourceBufferReady 0 (idle 2) Undefined appended))
       = [busy_warning]
   \<and> diagnostics (dispatch_updateend 0 (execWhenSourceBufferReady 0 (idle 2) Null appended)) = []
   \<and> diagnostics (dispatch_updateend 0
        ((execWhenSourceBufferReady 0 (idle 2) Undefined appended)\<lparr>updating := (updating appended)(0 := False)\<rparr>))
       = [idle_warning]
   \<and> diagnostics (dispatch_updateend 0
        ((execWhenSourceBufferReady 0 (idle 2) Null appended)\<lparr>updating := (updating appended)(0 := False)\<rparr>))
       = []
   \<and> execWhenSourceBufferReady 0 (idle 3) Undefined waiting
       = execWhenSourceBufferReady 0 (idle 3) Null waiting"
proof -
  have lf: "leaves_free 0 (idle 2)" by (simp add: idle_def)
  have n: "\<not> (updating waiting 0 \<and> queue_of waiting 0 = [])" by (simp add: waiting_facts)
  have f: "fresh appended = 0" by (simp add: appended_def eval_defs)
  show ?thesis
    using appended_facts lf n f
      registering_call_fixes_sink[OF appended_facts(1-3) n, of "idle 2" Undefined "idle 3" Undefined Null]
    by (simp add: console_listener_def)
qed

section \<open>Order of execution\<close>

lemma on_behalf_snoc [simp]:
  "on_behalf b (xs @ [(b', c)]) = on_behalf b xs @ (if b' = b then [c] else [])"
  by (simp add: on_behalf_def)

lemma fifoD: "fifo s \<Longrightarrow> on_behalf b (executed s) @ queue_of s b = on_behalf b (submitted s)"
  by (simp add: fifo_def)

lemma fifo_frame:
  "queueMap t = queueMap s \<Longrightarrow> executed t = executed s \<Longrightarrow> submitted t = submitted s \<Longrightarrow>
   fifo t = fifo s"
  by (simp add: fifo_def queue_of_def)

lemma fifo_push:
  assumes "fifo s"
  shows "fifo (s\<lparr>submitted := submitted s @ [(b, cb)],
                  queueMap := (queueMap s)(b \<mapsto> queue_of s b @ [cb])\<rparr>)"
  unfolding fifo_def
proof
  fix c
  show "on_behalf c (executed (s\<lparr>submitted := submitted s @ [(b, cb)],
                  queueMap := (queueMap s)(b \<mapsto> queue_of s b @ [cb])\<rparr>)) @
        queue_of (s\<lparr>submitted := submitted s @ [(b, cb)],
                  queueMap := (queueMap s)(b \<mapsto> queue_of s b @ [cb])\<rparr>) c =
        on_behalf c (submitted (s\<lparr>submitted := submitted s @ [(b, cb)],
                  queueMap := (queueMap s)(b \<mapsto> queue_of s b @ [cb])\<rparr>))"
    using fifoD[OF assms, of c] by (cases "c = b") (simp_all add: queue_of_def)
qed

lemma fifo_now:
  assumes "fifo s" and "queue_of s b = []"
  shows "fifo (s\<lparr>submitted := submitted s @ [(b, cb)], executed := executed s @ [(b, cb)]\<rparr>)"
  unfolding fifo_def
proof
  fix c
  show "on_behalf c (executed (s\<lparr>submitted := submitted s @ [(b, cb)], executed := executed s @ [(b, cb)]\<rparr>)) @
        queue_of (s\<lparr>submitted := submitted s @ [(b, cb)], executed := executed s @ [(b, cb)]\<rparr>) c =
        on_behalf c (submitted (s\<lparr>submitted := submitted s @ [(b, cb)], executed := executed s @ [(b, cb)]\<rparr>))"
    using fifoD[OF assms(1), of c] assms(2) by (cases "c = b") (simp_all add: queue_of_def)
qed

lemma fifo_shift:
  assumes "fifo s" and "queue_of s b = cb # rest"
  shows "fifo (s\<lparr>queueMap := (queueMap s)(b \<mapsto> rest), executed := executed s @ [(b, cb)]\<rparr>)"
  unfolding fifo_def
proof
  fix c
  show "on_behalf c (executed (s\<lparr>queueMap := (queueMap s)(b \<mapsto> rest), executed := executed s @ [(b, cb)]\<rparr>)) @
        queue_of (s\<lparr>queueMap := (queueMap s)(b \<mapsto> rest), executed := executed s @ [(b, cb)]\<rparr>) c =
        on_behalf c (submitted (s\<lparr>queueMap := (queueMap s)(b \<mapsto> rest), executed := executed s @ [(b, cb)]\<rparr>))"
    using fifoD[OF assms(1), of c] assms(2) by (cases "c = b") (simp_all add: queue_of_def)
qed

lemma fifo_submit:
  "fifo s \<Longrightarrow> fifo (execWhenSourceBufferReady b cb w s)"
  "fifo (s2\<lparr>executed := executed s2 @ [(b2, cb2)]\<rparr>) \<Longrightarrow> fifo (call b2 cb2 s2)"
  "fifo s3 \<Longrightarrow> fifo (exec_stmts body s3)"
proof (induction b cb w s and b2 cb2 s2 and body s3
       rule: execWhenSourceBufferReady_call_exec_stmts.induct)
  case (1 b cb w s0)
  let ?x = "s0\<lparr>submitted := submitted s0 @ [(b, cb)]\<rparr>"
  note IH = "1.IH"[OF refl refl]
  show ?case
  proof (cases "queueMap s0 b \<noteq> None \<and> 0 < length (queue_of s0 b)")
    case True
    then have "execWhenSourceBufferReady b cb w s0 =
                 s0\<lparr>submitted := submitted s0 @ [(b, cb)],
                    queueMap := (queueMap s0)(b \<mapsto> queue_of s0 b @ [cb])\<rparr>"
      by (simp add: execWhenSourceBufferReady.simps Let_def queue_of_def)
    then show ?thesis using fifo_push[OF "1.prems"] by simp
  next
    case nq: False
    then have q: "queue_of s0 b = []" by (auto simp: queue_of_def)
    show ?thesis
    proof (cases "updating s0 b")
      case True
      with nq have "execWhenSourceBufferReady b cb w s0 =
          addEventListener b (default_param w)
            (s0\<lparr>submitted := submitted s0 @ [(b, cb)],
                queueMap := (queueMap s0)(b \<mapsto> queue_of s0 b @ [cb])\<rparr>)"
        by (auto simp: execWhenSourceBufferReady.simps Let_def queue_of_def)
      moreover have "fifo (addEventListener b (default_param w) t) = fifo t" for t
        by (rule fifo_frame) (simp_all add: addEventListener_def)
      ultimately show ?thesis using fifo_push[OF "1.prems"] by simp
    next
      case False
      have a1: "\<not> (queueMap ?x b \<noteq> None \<and> 0 < length (queue_of ?x b))"
        using nq by (simp add: queue_of_def)
      have a2: "\<not> updating ?x b" using False by simp
      have a3: "fifo (?x\<lparr>executed := executed ?x @ [(b, cb)]\<rparr>)"
        using fifo_now[OF "1.prems" q, of cb] by simp
      have "execWhenSourceBufferReady b cb w s0 = call b cb ?x"
        using submit_free[OF False q, of cb w] by simp
      with IH[OF a1 a2 a3] show ?thesis by simp
    qed
  qed
next
  case (2 b n body s)
  then show ?case by simp
next
  case (3 s)
  then show ?case by simp
next
  case (4 b v rest s)
  have "fifo (s\<lparr>updating := (updating s)(b := v)\<rparr>) = fifo s"
    by (rule fifo_frame) simp_all
  with 4 show ?case by simp
next
  case (5 b cb w rest s)
  then show ?case by simp
qed

lemma fifo_warn [simp]: "fifo (warn w m s) = fifo s"
  by (rule fifo_frame) simp_all

lemma fifo_iteration:
  assumes "fifo s" and "queue_of s b = cb # rest"
  shows "fifo (iteration b h cb rest s)"
proof -
  have "fifo (call b cb (s\<lparr>queueMap := (queueMap s)(b \<mapsto> rest)\<rparr>))"
    using fifo_shift[OF assms] by (intro fifo_submit(2)) simp
  then show ?thesis by (simp add: iteration_def Let_def)
qed

lemma fifo_do_while:
  "fifo s \<Longrightarrow> fifo (case do_while b h s of Inr t \<Rightarrow> t | Inl (e, t) \<Rightarrow> t)"
proof (induction b h s rule: do_while.induct)
  case (1 b h s)
  show ?case
  proof (cases "queue_of s b")
    case Nil
    with "1.prems" show ?thesis by (simp add: do_while_Nil)
  next
    case (Cons cb rest)
    let ?s' = "iteration b h cb rest s"
    have f: "fifo ?s'" by (rule fifo_iteration[OF "1.prems" Cons])
    have r: "fifo (removeEventListener b h ?s') = fifo ?s'"
      by (rule fifo_frame) (simp_all add: removeEventListener_def)
    show ?thesis
    proof (cases "queue_of ?s' b = [] \<or> updating ?s' b")
      case True
      then show ?thesis using f r by (auto simp: do_while_Cons[OF Cons])
    next
      case False
      then have "fifo (case do_while b h ?s' of Inr t \<Rightarrow> t | Inl (e, t) \<Rightarrow> t)"
        using "1.IH"[OF Cons refl _ _ f] by simp
      with False show ?thesis by (simp add: do_while_Cons[OF Cons])
    qed
  qed
qed

lemma fifo_listener:
  "fifo s \<Longrightarrow>
   fifo (case onSourceBufferReadyAndQueueNotEmpty b h s of
           Inr s' \<Rightarrow> s' | Inl (e, s') \<Rightarrow> s'\<lparr>uncaught := uncaught s' @ [e]\<rparr>)"
proof -
  assume f: "fifo s"
  have u: "fifo (t\<lparr>uncaught := x\<rparr>) = fifo t" for t x
    by (rule fifo_frame) simp_all
  show ?thesis
  proof (cases "updating s b")
    case True
    then show ?thesis using f by (simp add: onSourceBufferReadyAndQueueNotEmpty_def)
  next
    case False
    then show ?thesis using fifo_do_while[OF f, of b h]
      by (simp add: onSourceBufferReadyAndQueueNotEmpty_def u split: sum.splits prod.splits)
  qed
qed

lemma fifo_invoke_listeners: "fifo s \<Longrightarrow> fifo (invoke_listeners b hs s)"
proof (induction hs arbitrary: s)
  case Nil
  then show ?case by simp
next
  case (Cons h hs)
  show ?case using Cons.IH[OF fifo_listener[OF Cons.prems, of b h]] Cons.IH[OF Cons.prems]
    by simp
qed

lemma fifo_step: "fifo s \<Longrightarrow> fifo (step e s)"
proof (cases e)
  case (Submit b cb w)
  assume "fifo s"
  then show ?thesis using Submit by (simp add: fifo_submit(1))
next
  case (UpdateEnd b)
  assume "fifo s"
  then show ?thesis using UpdateEnd by (simp add: dispatch_updateend_def fifo_invoke_listeners)
next
  case (Flag b v)
  assume "fifo s"
  moreover have "fifo (s\<lparr>updating := (updating s)(b := v)\<rparr>) = fifo s"
    by (rule fifo_frame) simp_all
  ultimately show ?thesis using Flag by simp
qed

lemma fifo_run_events: "fifo s \<Longrightarrow> fifo (run_events evs s)"
  unfolding run_events_def by (induction evs arbitrary: s) (simp_all add: fifo_step)

lemma fifo_init: "fifo init"
  by (simp add: fifo_def init_def on_behalf_def queue_of_def)

text \<open>
  Claim C1. After any sequence of events (calls of \<^verbatim>\<open>execWhenSourceBufferReady\<close>, also from
  inside callbacks, \<^verbatim>\<open>updateend\<close> events, changes of the flag), and for every source buffer: the
  callbacks invoked for it so far, followed by the callbacks in its queue, are the callbacks
  submitted for it so far, in the order of submission. The log of invoked callbacks is written
  by \<open>call\<close>, the invocation itself, and by nothing else: an invocation enters the callback in
  the log and then runs it, and the pass of the loop that takes a callback from the front of
  the queue invokes it. So callbacks are invoked in the order in which they were submitted,
  none is skipped, and the queue holds the rest in order.
\<close>

theorem execution_in_submission_order:
  "on_behalf b (executed (run_events evs init)) @ queue_of (run_events evs init) b
     = on_behalf b (submitted (run_events evs init))
   \<and> (\<exists>ys. executed (call b cb s) = executed s @ (b, cb) # ys)
   \<and> iteration b h cb rest s =
       (let s1 = call b cb (s\<lparr>queueMap := (queueMap s)(b \<mapsto> rest)\<rparr>)
        in if \<not> updating s1 b then warn (onWarning h) idle_warning s1 else s1)"
proof -
  have "on_behalf b (executed (run_events evs init)) @ queue_of (run_events evs init) b
          = on_behalf b (submitted (run_events evs init))"
    using fifo_run_events[OF fifo_init, of evs] by (simp add: fifo_def)
  then show ?thesis using executed_grows(2)[of b cb s] by (simp add: iteration_def)
qed

theorem execution_in_submission_order_witness:
  "on_behalf 0 (executed (run_events in_order init))
     = [appending 0 1, appending 0 2, appending 3 3, appending 0 4]
   \<and> updating (run_events in_order init) 0
   \<and> updating (run_events in_order init) 3
   \<and> diagnostics (run_events in_order init) = [busy_warning, idle_warning]"
proof -
  have "queue_of (run_events in_order init) 0 = []"
    by (simp add: in_order_def eval_defs)
  moreover have "submitted (run_events in_order init)
     = [(0, appending 0 1), (0, appending 0 2), (0, appending 3 3), (0, appending 0 4)]"
    by (simp add: in_order_def eval_defs)
  moreover have "updating (run_events in_order init) 0" "updating (run_events in_order init) 3"
    "diagnostics (run_events in_order init) = [busy_warning, idle_warning]"
    by (simp_all add: in_order_def eval_defs)
  ultimately show ?thesis
    using execution_in_submission_order[of 0 in_order, THEN conjunct1]
    by (simp add: on_behalf_def)
qed

section \<open>Listeners and queues\<close>

text \<open>A plain callback leaves the queue and the listeners to the loop.\<close>

lemma iteration_plain:
  assumes "plain cb"
  shows "queueMap (iteration b h cb rest s) = (queueMap s)(b \<mapsto> rest)"
    and "listeners (iteration b h cb rest s) = listeners s"
    and "uncaught (iteration b h cb rest s) = uncaught s"
  by (simp_all add: iteration_def Let_def call_plain[OF assms])

lemma plain_do_while:
  assumes "list_all plain q" and "q \<noteq> []" and "queue_of s b = q"
  shows "\<exists>t q'. do_while b h s = Inr t \<and> queueMap t = (queueMap s)(b \<mapsto> q') \<and> list_all plain q'
           \<and> uncaught t = uncaught s
           \<and> listeners t = (if q' = [] then (listeners s)(b := filter (\<lambda>h'. hid h' \<noteq> hid h) (listeners s b))
                             else listeners s)"
  using assms
proof (induction q arbitrary: s)
  case Nil
  then show ?case by simp
next
  case (Cons c cs)
  let ?s' = "iteration b h c cs s"
  from Cons.prems have pc: "plain c" and pcs: "list_all plain cs" by simp_all
  note it = iteration_plain[OF pc, of b h cs s]
  have q': "queue_of ?s' b = cs" by (simp add: queue_of_def it(1))
  note dw = do_while_Cons[OF Cons.prems(3), of h]
  show ?case
  proof (cases "cs = []")
    case True
    with dw q' have "do_while b h s = Inr (removeEventListener b h ?s')" by simp
    then show ?thesis using it True
      by (intro exI[of _ "removeEventListener b h ?s'"] exI[of _ "[]"])
         (simp add: removeEventListener_def)
  next
    case False
    show ?thesis
    proof (cases "updating ?s' b")
      case True
      with dw q' False have "do_while b h s = Inr ?s'" by simp
      then show ?thesis using it False pcs
        by (intro exI[of _ ?s'] exI[of _ cs]) simp
    next
      case nb: False
      with dw q' False have d: "do_while b h s = do_while b h ?s'" by simp
      from Cons.IH[OF pcs False q'] obtain t q'' where t:
        "do_while b h ?s' = Inr t" "queueMap t = (queueMap ?s')(b \<mapsto> q'')" "list_all plain q''"
        "uncaught t = uncaught ?s'"
        "listeners t = (if q'' = [] then (listeners ?s')(b := filter (\<lambda>h'. hid h' \<noteq> hid h) (listeners ?s' b))
                             else listeners ?s')"
        by blast
      show ?thesis using d t it
        by (intro exI[of _ t] exI[of _ q'']) simp
    qed
  qed
qed

lemma inv_submit:
  assumes "subscribed_iff_queued s" and "plain cb"
  shows "subscribed_iff_queued (execWhenSourceBufferReady b cb w s)"
    and "uncaught (execWhenSourceBufferReady b cb w s) = uncaught s"
proof -
  note inv = assms(1)[unfolded subscribed_iff_queued_def, rule_format]
  show "subscribed_iff_queued (execWhenSourceBufferReady b cb w s)"
  proof (cases "queue_of s b = []")
    case False
    then obtain q where q: "queueMap s b = Some q" "q \<noteq> []"
      by (auto simp: queue_of_def split: option.splits)
    have e: "execWhenSourceBufferReady b cb w s =
           s\<lparr>submitted := submitted s @ [(b, cb)], queueMap := (queueMap s)(b \<mapsto> q @ [cb])\<rparr>"
      using q by (simp add: execWhenSourceBufferReady.simps Let_def queue_of_def)
    show ?thesis unfolding e subscribed_iff_queued_def
    proof
      fix c
      show "length (listeners (s\<lparr>submitted := submitted s @ [(b, cb)], queueMap := (queueMap s)(b \<mapsto> q @ [cb])\<rparr>) c) \<le> 1
          \<and> (listeners (s\<lparr>submitted := submitted s @ [(b, cb)], queueMap := (queueMap s)(b \<mapsto> q @ [cb])\<rparr>) c = [])
             = (queue_of (s\<lparr>submitted := submitted s @ [(b, cb)], queueMap := (queueMap s)(b \<mapsto> q @ [cb])\<rparr>) c = [])
          \<and> list_all plain (queue_of (s\<lparr>submitted := submitted s @ [(b, cb)], queueMap := (queueMap s)(b \<mapsto> q @ [cb])\<rparr>) c)"
        using inv[of c] q assms(2) by (cases "c = b") (simp_all add: queue_of_def)
    qed
  next
    case True
    show ?thesis
    proof (cases "updating s b")
      case False
      have "execWhenSourceBufferReady b cb w s =
              call b cb (s\<lparr>submitted := submitted s @ [(b, cb)]\<rparr>)"
        by (rule submit_free[OF False True])
      then have "queueMap (execWhenSourceBufferReady b cb w s) = queueMap s"
        "listeners (execWhenSourceBufferReady b cb w s) = listeners s"
        by (simp_all add: call_plain[OF assms(2)])
      then show ?thesis using assms(1) by (simp add: subscribed_iff_queued_def queue_of_def)
    next
      case busy: True
      note e = submit_busy[OF busy True, of cb w]
      show ?thesis unfolding e subscribed_iff_queued_def
      proof
        fix c
        let ?t = "addEventListener b (default_param w)
                    (s\<lparr>submitted := submitted s @ [(b, cb)], queueMap := (queueMap s)(b \<mapsto> [cb])\<rparr>)"
        show "length (listeners ?t c) \<le> 1 \<and> (listeners ?t c = []) = (queue_of ?t c = [])
              \<and> list_all plain (queue_of ?t c)"
          using inv[of c] True assms(2)
          by (cases "c = b") (simp_all add: queue_of_def addEventListener_def)
      qed
    qed
  qed
  show "uncaught (execWhenSourceBufferReady b cb w s) = uncaught s"
  proof (cases "queue_of s b = []")
    case False
    then obtain q where q: "queueMap s b = Some q" "q \<noteq> []"
      by (auto simp: queue_of_def split: option.splits)
    then show ?thesis by (simp add: execWhenSourceBufferReady.simps Let_def queue_of_def)
  next
    case True
    then show ?thesis
      by (cases "updating s b")
         (simp_all add: submit_busy submit_free call_plain[OF assms(2)] addEventListener_def)
  qed
qed

lemma inv_dispatch:
  assumes "subscribed_iff_queued s"
  shows "subscribed_iff_queued (dispatch_updateend b s)
       \<and> uncaught (dispatch_updateend b s) = uncaught s"
proof -
  note inv = assms(1)[unfolded subscribed_iff_queued_def, rule_format]
  show ?thesis
  proof (cases "listeners s b")
    case Nil
    then show ?thesis using assms by (simp add: dispatch_updateend_def)
  next
    case (Cons h hs)
    with inv[of b] have l: "listeners s b = [h]" and ne: "queue_of s b \<noteq> []"
      and pl: "list_all plain (queue_of s b)" by auto
    note d = dispatch_single[OF l]
    show ?thesis
    proof (cases "updating s b")
      case True
      then have "dispatch_updateend b s = warn (onWarning h) busy_warning s"
        by (simp add: d onSourceBufferReadyAndQueueNotEmpty_def)
      then show ?thesis using assms by (simp add: subscribed_iff_queued_def)
    next
      case False
      from plain_do_while[OF pl ne refl, of h] obtain t q' where t:
        "do_while b h s = Inr t" "queueMap t = (queueMap s)(b \<mapsto> q')" "list_all plain q'"
        "uncaught t = uncaught s"
        "listeners t = (if q' = [] then (listeners s)(b := filter (\<lambda>h'. hid h' \<noteq> hid h) (listeners s b))
                             else listeners s)"
        by blast
      have dt: "dispatch_updateend b s = t"
        using False t(1) by (simp add: d onSourceBufferReadyAndQueueNotEmpty_def)
      have "subscribed_iff_queued t" unfolding subscribed_iff_queued_def
      proof
        fix c
        show "length (listeners t c) \<le> 1 \<and> (listeners t c = []) = (queue_of t c = [])
              \<and> list_all plain (queue_of t c)"
          using inv[of c] t(2,3,5) l
          by (cases "c = b"; cases "q' = []") (simp_all add: queue_of_def)
      qed
      then show ?thesis using dt t(4) by simp
    qed
  qed
qed

lemma inv_step:
  assumes "subscribed_iff_queued s" and "plain_event e"
  shows "subscribed_iff_queued (step e s) \<and> uncaught (step e s) = uncaught s"
proof (cases e)
  case (Submit b cb w)
  then show ?thesis using inv_submit[OF assms(1), of cb b w] assms(2) by simp
next
  case (UpdateEnd b)
  then show ?thesis using inv_dispatch[OF assms(1), of b] by simp
next
  case (Flag b v)
  then show ?thesis using assms(1) by (simp add: subscribed_iff_queued_def queue_of_def)
qed

lemma inv_run_events:
  "subscribed_iff_queued s \<Longrightarrow> list_all plain_event evs \<Longrightarrow>
   subscribed_iff_queued (run_events evs s) \<and> uncaught (run_events evs s) = uncaught s"
  unfolding run_events_def
proof (induction evs arbitrary: s)
  case Nil
  then show ?case by simp
next
  case (Cons e evs)
  from Cons.prems have pe: "plain_event e" and pes: "list_all plain_event evs" by simp_all
  from inv_step[OF Cons.prems(1) pe] Cons.IH[of "step e s", OF _ pes]
  show ?case by simp
qed

text \<open>
  With callbacks that return and do not call \<^verbatim>\<open>execWhenSourceBufferReady\<close> themselves, every
  state the environment can reach has at most one listener per source buffer, has one exactly
  when the queue is not empty, and no listener ever took a callback from an empty queue.
\<close>

lemma plain_callbacks_keep_subscription:
  assumes "list_all plain_event evs"
  shows "length (listeners (run_events evs init) b) \<le> 1
       \<and> (listeners (run_events evs init) b = []) = (queue_of (run_events evs init) b = [])
       \<and> uncaught (run_events evs init) = []"
proof -
  have "subscribed_iff_queued init"
    by (simp add: subscribed_iff_queued_def init_def queue_of_def)
  from inv_run_events[OF this assms] show ?thesis
    by (simp add: subscribed_iff_queued_def init_def)
qed

text \<open>
  Claim C4 says that a listener is subscribed exactly when the queue is not empty. Take a queued
  callback that appends and then submits the next callback. Its call of
  \<^verbatim>\<open>execWhenSourceBufferReady\<close> finds the queue empty (the callback has just been taken from it)
  and the source buffer busy, so line 116 registers a second listener while the first, which
  is still running, stays registered: two listeners for one queue. After the next
  \<^verbatim>\<open>updateend\<close> the first listener has emptied the queue and removed itself, and the second is
  still subscribed to a source buffer whose queue is empty.
\<close>

theorem resubmitting_callback_doubles_listener:
  "map hid (listeners (run_events resubmitting init) 0) = [0, 1]
   \<and> queue_of (run_events resubmitting init) 0 = [appending 0 3]
   \<and> queue_of (run_events (resubmitting @ [Flag 0 False, UpdateEnd 0]) init) 0 = []
   \<and> map hid (listeners (run_events (resubmitting @ [Flag 0 False, UpdateEnd 0]) init) 0) = [1]"
  by (simp add: resubmitting_def eval_defs)

text \<open>
  Claim C9 says that \<^verbatim>\<open>queue.shift()\<close> in the listener always finds a callback. In the same run,
  the listener left behind is called at the next \<^verbatim>\<open>updateend\<close> with the source buffer free and the
  queue empty: \<^verbatim>\<open>queue.shift()\<close> is \<^verbatim>\<open>undefined\<close> and line 87 throws a \<^verbatim>\<open>TypeError\<close>.
\<close>

theorem shift_on_empty_queue:
  "queue_of (run_events (resubmitting @ [Flag 0 False, UpdateEnd 0, Flag 0 False]) init) 0 = []
   \<and> map hid (listeners (run_events (resubmitting @ [Flag 0 False, UpdateEnd 0, Flag 0 False]) init) 0) = [1]
   \<and> uncaught (run_events (resubmitting @ [Flag 0 False, UpdateEnd 0, Flag 0 False]) init) = []
   \<and> uncaught (run_events (resubmitting @ [Flag 0 False, UpdateEnd 0, Flag 0 False, UpdateEnd 0]) init)
       = [TypeError]"
  by (simp add: resubmitting_def eval_defs)

end
